theory Spec2Isabelle
  imports Main "HOL-Library.AList"
begin

section \<open>The restaurant waitlist of sistemaRestaurante.py\<close>

subsection \<open>Data\<close>

text \<open>
  A \<^verbatim>\<open>Node\<close> of the source carries \<^verbatim>\<open>client_name\<close>, \<^verbatim>\<open>party_size\<close>,
  \<^verbatim>\<open>reservation_time\<close> and the pointer \<^verbatim>\<open>next\<close>. The chain that starts at
  \<^verbatim>\<open>self.head\<close> is modelled as the list of its nodes, first node first, so
  \<^verbatim>\<open>self.head is None\<close> is the empty list and \<^verbatim>\<open>current.next\<close> is the tail.
  Python integers are unbounded, hence \<open>int\<close>.
\<close>

record node =
  client_name :: string
  party_size :: int
  reservation_time :: string

text \<open>
  \<^verbatim>\<open>RestaurantWaitlist\<close>: the chain, the dictionary \<^verbatim>\<open>tables\<close> (table size to number
  of free tables) and \<^verbatim>\<open>wait_time_per_table\<close>. The dictionary is an association list
  in insertion order; \<open>map_of\<close> reads it, \<open>AList.update\<close> writes a key in place.
\<close>

record restaurant_waitlist =
  head :: "node list"
  tables :: "(int \<times> int) list"
  wait_time_per_table :: int

text \<open>\<^verbatim>\<open>__init__\<close>: no argument; empty chain, \<^verbatim>\<open>{2: 5, 4: 3, 6: 2}\<close>, 30 minutes.\<close>

definition init :: restaurant_waitlist where
  "init = \<lparr>head = [], tables = [(2, 5), (4, 3), (6, 2)], wait_time_per_table = 30\<rparr>"

text \<open>
  The operations return a flag and a formatted message. The messages are kept as
  constructors that carry the interpolated values:
  \<^item> \<open>NoHayClientes\<close>: "No hay clientes en la lista de espera."
  \<^item> \<open>Llamando n t\<close>: "Llamando a n para una mesa de t personas."
  \<^item> \<open>NoHayMesas n p\<close>: "No hay mesas disponibles para n (grupo de p)."
  \<^item> \<open>ListaVacia\<close>: "La lista de espera esta vacia."
  \<^item> \<open>Cancelada n\<close>: "Reservacion de n cancelada."
  \<^item> \<open>NoSeEncontro n\<close>: "No se encontro a n en la lista de espera."
\<close>

datatype message =
    NoHayClientes
  | Llamando string int
  | NoHayMesas string int
  | ListaVacia
  | Cancelada string
  | NoSeEncontro string

text \<open>
  Reading a dictionary at a missing key raises \<^verbatim>\<open>KeyError\<close>; reading an attribute
  that an object does not have raises \<^verbatim>\<open>AttributeError\<close>.
\<close>

datatype py_error = KeyError int | AttributeError

definition getitem :: "(int \<times> int) list \<Rightarrow> int \<Rightarrow> py_error + int" where
  "getitem d k = (case map_of d k of None \<Rightarrow> Inl (KeyError k) | Some v \<Rightarrow> Inr v)"

subsection \<open>Operations\<close>

text \<open>
  \<^verbatim>\<open>add_client\<close>: the new node becomes the head of an empty chain; otherwise the loop
  \<^verbatim>\<open>while current.next: current = current.next\<close> walks to the last node and links the
  new node behind it. There is no check on any argument.
\<close>

fun link_last :: "node list \<Rightarrow> node \<Rightarrow> node list" where
  "link_last [] new_node = [new_node]"
| "link_last (current # rest) new_node = current # link_last rest new_node"

definition add_client :: "restaurant_waitlist \<Rightarrow> string \<Rightarrow> int \<Rightarrow> string \<Rightarrow> restaurant_waitlist" where
  "add_client s cname psize rtime =
     (let new_node = \<lparr>client_name = cname, party_size = psize, reservation_time = rtime\<rparr>
      in s\<lparr>head := link_last (head s) new_node\<rparr>)"

text \<open>
  \<^verbatim>\<open>_find_suitable_table\<close>: the first key of \<^verbatim>\<open>sorted(self.tables.keys())\<close> that is at
  least the party size, or \<^verbatim>\<open>None\<close>.
\<close>

definition find_suitable_table :: "restaurant_waitlist \<Rightarrow> int \<Rightarrow> int option" where
  "find_suitable_table s psize = find (\<lambda>k. psize \<le> k) (sort (map fst (tables s)))"

text \<open>
  \<^verbatim>\<open>call_next_table\<close>. The test \<^verbatim>\<open>if table_size and self.tables[table_size] > 0\<close> is
  Python truthiness followed by a lookup: \<^verbatim>\<open>None\<close> and the integer 0 are both false,
  and the lookup happens only for a true \<^verbatim>\<open>table_size\<close>.
\<close>

definition call_next_table ::
  "restaurant_waitlist \<Rightarrow> py_error + ((bool \<times> message) \<times> restaurant_waitlist)" where
  "call_next_table s =
     (case head s of
        [] \<Rightarrow> Inr ((False, NoHayClientes), s)
      | current # rest \<Rightarrow>
          (let refused = Inr ((False, NoHayMesas (client_name current) (party_size current)), s)
           in case find_suitable_table s (party_size current) of
                None \<Rightarrow> refused
              | Some table_size \<Rightarrow>
                  if table_size = 0 then refused
                  else (case getitem (tables s) table_size of
                          Inl e \<Rightarrow> Inl e
                        | Inr free \<Rightarrow>
                            if free > 0
                            then Inr ((True, Llamando (client_name current) table_size),
                                      s\<lparr>tables := AList.update table_size (free - 1) (tables s),
                                        head := rest\<rparr>)
                            else refused)))"

text \<open>
  \<^verbatim>\<open>get_waitlist\<close>: the loop appends one dictionary with the keys \<^verbatim>\<open>name\<close>,
  \<^verbatim>\<open>party_size\<close>, \<^verbatim>\<open>time\<close> per node to the list \<^verbatim>\<open>clients\<close>.
\<close>

record client_dict =
  name :: string
  party_size_entry :: int
  time :: string

definition as_dict :: "node \<Rightarrow> client_dict" where
  "as_dict current = \<lparr>name = client_name current, party_size_entry = party_size current,
                      time = reservation_time current\<rparr>"

fun collect :: "node list \<Rightarrow> client_dict list \<Rightarrow> client_dict list" where
  "collect [] clients = clients"
| "collect (current # rest) clients = collect rest (clients @ [as_dict current])"

definition get_waitlist :: "restaurant_waitlist \<Rightarrow> client_dict list" where
  "get_waitlist s = collect (head s) []"

text \<open>
  \<^verbatim>\<open>cancel_reservation\<close>: an empty chain has its own message; the head is a special
  case; otherwise the loop stops at the node whose successor has the name (or at the
  last node) and the successor is skipped.
\<close>

fun unlink :: "node list \<Rightarrow> string \<Rightarrow> node list option" where
  "unlink [] cname = None"
| "unlink (nxt # rest) cname =
     (if client_name nxt \<noteq> cname then map_option (Cons nxt) (unlink rest cname)
      else Some rest)"

definition cancel_reservation ::
  "restaurant_waitlist \<Rightarrow> string \<Rightarrow> (bool \<times> message) \<times> restaurant_waitlist" where
  "cancel_reservation s cname =
     (case head s of
        [] \<Rightarrow> ((False, ListaVacia), s)
      | first # rest \<Rightarrow>
          if client_name first = cname then ((True, Cancelada cname), s\<lparr>head := rest\<rparr>)
          else (case unlink rest cname of
                  Some rest' \<Rightarrow> ((True, Cancelada cname), s\<lparr>head := first # rest'\<rparr>)
                | None \<Rightarrow> ((False, NoSeEncontro cname), s)))"

text \<open>
  \<^verbatim>\<open>estimate_wait_time\<close>: the loop counts the nodes whose party size is at most the
  argument; \<^verbatim>\<open>not table_size or self.tables[table_size] == 0\<close> is again truthiness
  followed by a lookup.
\<close>

fun count_groups :: "node list \<Rightarrow> int \<Rightarrow> int \<Rightarrow> int" where
  "count_groups [] psize count = count"
| "count_groups (current # rest) psize count =
     count_groups rest psize (if party_size current \<le> psize then count + 1 else count)"

definition estimate_wait_time :: "restaurant_waitlist \<Rightarrow> int \<Rightarrow> py_error + int" where
  "estimate_wait_time s psize =
     (let count = count_groups (head s) psize 0;
          busy = Inr (max 0 (count * wait_time_per_table s))
      in case find_suitable_table s psize of
           None \<Rightarrow> busy
         | Some table_size \<Rightarrow>
             if table_size = 0 then busy
             else (case getitem (tables s) table_size of
                     Inl e \<Rightarrow> Inl e
                   | Inr free \<Rightarrow>
                       if free = 0 then busy
                       else Inr (max 0 ((count - free) * wait_time_per_table s))))"

text \<open>
  \<^verbatim>\<open>free_table\<close>: \<^verbatim>\<open>table_size in self.tables\<close> is the lookup being defined; the count
  goes up by one with no upper limit.
\<close>

definition free_table :: "restaurant_waitlist \<Rightarrow> int \<Rightarrow> bool \<times> restaurant_waitlist" where
  "free_table s table_size =
     (case map_of (tables s) table_size of
        Some free \<Rightarrow> (True, s\<lparr>tables := AList.update table_size (free + 1) (tables s)\<rparr>)
      | None \<Rightarrow> (False, s))"

subsection \<open>The data model's conditions on the table dictionary\<close>

text \<open>
  A table size is a positive integer and a count of free tables is not negative. Both
  hold for the dictionary of \<open>init\<close> and are kept by every operation, and the time
  per table stays 30 (all three are shown for every reachable state below).
  \<open>smallest_fit s p c\<close>: \<open>c\<close> is a key of the dictionary, at least \<open>p\<close>, and no
  key that is at least \<open>p\<close> is smaller.
\<close>

definition capacities_positive :: "restaurant_waitlist \<Rightarrow> bool" where
  "capacities_positive s = list_all (\<lambda>k. 0 < k) (map fst (tables s))"

definition counts_nonneg :: "restaurant_waitlist \<Rightarrow> bool" where
  "counts_nonneg s = list_all (\<lambda>n. 0 \<le> n) (map snd (tables s))"

definition smallest_fit :: "restaurant_waitlist \<Rightarrow> int \<Rightarrow> int \<Rightarrow> bool" where
  "smallest_fit s psize c =
     (c \<in> set (map fst (tables s)) \<and> psize \<le> c
      \<and> list_all (\<lambda>k. psize \<le> k \<longrightarrow> c \<le> k) (map fst (tables s)))"

subsection \<open>Sequences of calls\<close>

text \<open>
  A caller that adds the clients of a list one after the other, and a caller that calls
  \<^verbatim>\<open>call_next_table\<close> \<open>k\<close> times and keeps the results. \<open>called\<close> reads the
  client's name off a successful result.
\<close>

fun add_clients :: "restaurant_waitlist \<Rightarrow> (string \<times> int \<times> string) list \<Rightarrow> restaurant_waitlist" where
  "add_clients s [] = s"
| "add_clients s ((cname, psize, rtime) # others) = add_clients (add_client s cname psize rtime) others"

fun call_next_tables ::
  "nat \<Rightarrow> restaurant_waitlist \<Rightarrow> py_error + ((bool \<times> message) list \<times> restaurant_waitlist)" where
  "call_next_tables 0 s = Inr ([], s)"
| "call_next_tables (Suc k) s =
     (case call_next_table s of
        Inl e \<Rightarrow> Inl e
      | Inr (r, s') \<Rightarrow>
          (case call_next_tables k s' of
             Inl e \<Rightarrow> Inl e
           | Inr (rs, s'') \<Rightarrow> Inr (r # rs, s'')))"

fun called :: "bool \<times> message \<Rightarrow> string option" where
  "called (ok, Llamando cname table_size) = (if ok then Some cname else None)"
| "called (ok, m) = None"

subsection \<open>Reachable states\<close>

text \<open>
  The calls a user of the class can make, and the state each leaves behind. The two
  reading operations return a value and assign nothing. An exception would leave the
  state as it was: the only lookup that could raise comes before every assignment.
\<close>

datatype operation =
    AddClient string int string
  | CallNextTable
  | GetWaitlist
  | CancelReservation string
  | EstimateWaitTime int
  | FreeTable int

fun apply_operation :: "restaurant_waitlist \<Rightarrow> operation \<Rightarrow> restaurant_waitlist" where
  "apply_operation s (AddClient cname psize rtime) = add_client s cname psize rtime"
| "apply_operation s CallNextTable =
     (case call_next_table s of Inl e \<Rightarrow> s | Inr (r, s') \<Rightarrow> s')"
| "apply_operation s GetWaitlist = s"
| "apply_operation s (CancelReservation cname) = snd (cancel_reservation s cname)"
| "apply_operation s (EstimateWaitTime psize) = s"
| "apply_operation s (FreeTable table_size) = snd (free_table s table_size)"

definition reachable :: "operation list \<Rightarrow> restaurant_waitlist" where
  "reachable ops = foldl apply_operation init ops"

text \<open>A caller that frees a table of one size \<open>k\<close> times in a row.\<close>

fun free_tables :: "nat \<Rightarrow> restaurant_waitlist \<Rightarrow> int \<Rightarrow> restaurant_waitlist" where
  "free_tables 0 s table_size = s"
| "free_tables (Suc k) s table_size = free_tables k (snd (free_table s table_size)) table_size"

subsection \<open>\<^verbatim>\<open>get_waitlist\<close> on an explicit store\<close>

text \<open>
  Whether the caller of \<^verbatim>\<open>get_waitlist\<close> can reach the engine's objects through the
  result depends on which objects are shared, so the objects get addresses here. The
  store is the list of all objects allocated so far; an address is an index; a new
  object goes to the end. Strings and integers are immutable and are kept as values.
  A \<^verbatim>\<open>Node\<close> object holds its three fields and \<^verbatim>\<open>next\<close>; a
  \<^verbatim>\<open>RestaurantWaitlist\<close> object holds \<^verbatim>\<open>head\<close>, the address of its dictionary
  \<^verbatim>\<open>tables\<close> and \<^verbatim>\<open>wait_time_per_table\<close>; a dictionary holds its items; a list
  holds the addresses of its elements.
\<close>

type_synonym addr = nat

datatype pyval = PyStr string | PyInt int

datatype pyobj =
    NodeObj string int string "addr option"
  | WaitlistObj "addr option" addr int
  | DictObj "(pyval \<times> pyval) list"
  | ListObj "addr list"

type_synonym store = "pyobj list"

definition lookup :: "store \<Rightarrow> addr \<Rightarrow> pyobj option" where
  "lookup h a = (if a < length h then Some (h ! a) else None)"

definition alloc :: "store \<Rightarrow> pyobj \<Rightarrow> store \<times> addr" where
  "alloc h ob = (h @ [ob], length h)"

text \<open>
  The loop \<^verbatim>\<open>while current: clients.append({...}); current = current.next\<close>. Each
  round reads the fields of the node at \<open>current\<close>, allocates the dictionary, and
  appends its address to the list object at \<open>clients\<close>. On a cyclic chain the loop
  does not end, which is the value \<open>None\<close>.
\<close>

partial_function (option) collect_store ::
  "store \<Rightarrow> addr \<Rightarrow> addr option \<Rightarrow> (py_error + store) option" where
  "collect_store h clients current =
     (case current of
        None \<Rightarrow> Some (Inr h)
      | Some a \<Rightarrow>
          (case lookup h a of
             Some (NodeObj cname psize rtime nxt) \<Rightarrow>
               (case alloc h (DictObj [(PyStr ''name'', PyStr cname),
                                       (PyStr ''party_size'', PyInt psize),
                                       (PyStr ''time'', PyStr rtime)]) of
                  (h1, d) \<Rightarrow>
                    (case lookup h1 clients of
                       Some (ListObj ds) \<Rightarrow>
                         collect_store (h1[clients := ListObj (ds @ [d])]) clients nxt
                     | _ \<Rightarrow> Some (Inl AttributeError)))
           | _ \<Rightarrow> Some (Inl AttributeError)))"

text \<open>
  \<^verbatim>\<open>get_waitlist\<close>: \<^verbatim>\<open>clients = []\<close> allocates the list, the loop starts at
  \<^verbatim>\<open>self.head\<close>, and the address of the list is returned with the new store. No
  attribute of \<^verbatim>\<open>self\<close> is assigned.
\<close>

definition get_waitlist_store :: "store \<Rightarrow> addr \<Rightarrow> (py_error + store \<times> addr) option" where
  "get_waitlist_store h self =
     (case lookup h self of
        Some (WaitlistObj head_ref tables_ref wait) \<Rightarrow>
          (case alloc h (ListObj []) of
             (h1, clients) \<Rightarrow>
               (case collect_store h1 clients head_ref of
                  None \<Rightarrow> None
                | Some (Inl e) \<Rightarrow> Some (Inl e)
                | Some (Inr h2) \<Rightarrow> Some (Inr (h2, clients))))
      | _ \<Rightarrow> Some (Inl AttributeError))"

text \<open>
  How a store holds an engine state. \<open>chain h p as\<close>: following \<^verbatim>\<open>next\<close> from the
  reference \<open>p\<close> visits exactly the node objects at the addresses \<open>as\<close> and ends at
  \<^verbatim>\<open>None\<close>. \<open>node_at\<close> reads the fields of the node object at an address (only
  used at the addresses of a chain). \<open>engine_at h self as s\<close>: the object at \<open>self\<close>
  is a waitlist whose chain runs through \<open>as\<close> and carries the nodes of \<open>head s\<close>,
  whose dictionary object has the items of \<open>tables s\<close>, and whose time per table is
  that of \<open>s\<close>. \<open>dict_obj\<close> is the dictionary object of a \<open>client_dict\<close>.
\<close>

fun chain :: "store \<Rightarrow> addr option \<Rightarrow> addr list \<Rightarrow> bool" where
  "chain h p [] = (p = None)"
| "chain h p (a # as) =
     (p = Some a \<and>
      (case lookup h a of Some (NodeObj cname psize rtime nxt) \<Rightarrow> chain h nxt as | _ \<Rightarrow> False))"

definition node_at :: "store \<Rightarrow> addr \<Rightarrow> node" where
  "node_at h a =
     (case h ! a of
        NodeObj cname psize rtime nxt \<Rightarrow>
          \<lparr>client_name = cname, party_size = psize, reservation_time = rtime\<rparr>
      | _ \<Rightarrow> \<lparr>client_name = [], party_size = 0, reservation_time = []\<rparr>)"

definition tables_obj :: "(int \<times> int) list \<Rightarrow> pyobj" where
  "tables_obj d = DictObj (map (\<lambda>(k, v). (PyInt k, PyInt v)) d)"

definition engine_at :: "store \<Rightarrow> addr \<Rightarrow> addr list \<Rightarrow> restaurant_waitlist \<Rightarrow> bool" where
  "engine_at h self as s =
     (case lookup h self of
        Some (WaitlistObj head_ref tables_ref wait) \<Rightarrow>
          chain h head_ref as \<and> head s = map (node_at h) as
          \<and> lookup h tables_ref = Some (tables_obj (tables s))
          \<and> wait = wait_time_per_table s
      | _ \<Rightarrow> False)"

definition dict_obj :: "client_dict \<Rightarrow> pyobj" where
  "dict_obj d = DictObj [(PyStr ''name'', PyStr (name d)),
                         (PyStr ''party_size'', PyInt (party_size_entry d)),
                         (PyStr ''time'', PyStr (time d))]"

text \<open>
  What a caller can do to an object it holds: overwrite it. \<open>mutate\<close> applies a list
  of such writes, each to the object at an address.
\<close>

fun mutate :: "store \<Rightarrow> (addr \<times> pyobj) list \<Rightarrow> store" where
  "mutate h [] = h"
| "mutate h ((x, ob) # writes) = mutate (h[x := ob]) writes"

section \<open>Properties\<close>

lemma link_last_append: "link_last ns n = ns @ [n]"
  by (induction ns) simp_all

lemma find_sorted_least:
  assumes "find P ys = Some c" and "sorted ys"
  shows "c \<in> set ys \<and> P c \<and> (\<forall>k\<in>set ys. P k \<longrightarrow> c \<le> k)"
proof -
  from assms(1) obtain i where i: "i < length ys" "P (ys ! i)" "c = ys ! i" "\<forall>j<i. \<not> P (ys ! j)"
    by (auto simp: find_Some_iff)
  have "c \<le> k" if "k \<in> set ys" "P k" for k
  proof -
    from that(1) obtain j where j: "j < length ys" "k = ys ! j" by (auto simp: in_set_conv_nth)
    with that(2) i(4) have "i \<le> j" by (metis not_le_imp_less)
    with assms(2) j i(3) show ?thesis by (simp add: sorted_nth_mono)
  qed
  with i show ?thesis by auto
qed

lemma find_suitable_table_Some:
  "find_suitable_table s p = Some c \<longleftrightarrow> smallest_fit s p c"
proof
  assume "find_suitable_table s p = Some c"
  then show "smallest_fit s p c"
    using find_sorted_least [of "\<lambda>k. p \<le> k" "sort (map fst (tables s))" c]
    by (auto simp: find_suitable_table_def smallest_fit_def list_all_iff)
next
  assume sf: "smallest_fit s p c"
  then have "find_suitable_table s p \<noteq> None"
    by (auto simp: find_suitable_table_def smallest_fit_def find_None_iff)
  then obtain d where d: "find_suitable_table s p = Some d" by auto
  then have "smallest_fit s p d"
    using find_sorted_least [of "\<lambda>k. p \<le> k" "sort (map fst (tables s))" d]
    by (auto simp: find_suitable_table_def smallest_fit_def list_all_iff)
  with sf have "c = d" by (fastforce simp: smallest_fit_def list_all_iff)
  with d show "find_suitable_table s p = Some c" by simp
qed

lemma find_suitable_table_None:
  "find_suitable_table s p = None \<longleftrightarrow> list_all (\<lambda>k. k < p) (map fst (tables s))"
  by (auto simp: find_suitable_table_def find_None_iff list_all_iff)

lemma getitem_Some: "map_of d k = Some v \<Longrightarrow> getitem d k = Inr v"
  by (simp add: getitem_def)

lemma getitem_key: "k \<in> set (map fst d) \<Longrightarrow> \<exists>v. getitem d k = Inr v \<and> map_of d k = Some v"
  by (cases "map_of d k") (auto simp: getitem_def map_of_eq_None_iff)

lemma call_next_table_total: "\<exists>r. call_next_table s = Inr r"
proof (cases "head s")
  case Nil
  then show ?thesis by (auto simp: call_next_table_def)
next
  case (Cons current rest)
  show ?thesis
  proof (cases "find_suitable_table s (party_size current)")
    case None
    with Cons show ?thesis by (auto simp: call_next_table_def)
  next
    case (Some c)
    then have "c \<in> set (map fst (tables s))"
      by (simp add: find_suitable_table_Some smallest_fit_def)
    from getitem_key [OF this] obtain v where "getitem (tables s) c = Inr v" by blast
    with Cons Some show ?thesis by (auto simp: call_next_table_def Let_def)
  qed
qed

lemma call_next_table_seated:
  assumes "head s = current # rest" and "find_suitable_table s (party_size current) = Some c"
    and "c \<noteq> 0" and "map_of (tables s) c = Some free" and "0 < free"
  shows "call_next_table s =
           Inr ((True, Llamando (client_name current) c),
                s\<lparr>tables := AList.update c (free - 1) (tables s), head := rest\<rparr>)"
  using assms by (simp add: call_next_table_def getitem_def)

lemma call_next_table_cases:
  assumes "call_next_table s = Inr ((ok, m), s')"
  shows "(head s = [] \<and> \<not> ok \<and> m = NoHayClientes \<and> s' = s)
       \<or> (\<exists>current rest. head s = current # rest \<and> \<not> ok \<and> s' = s
             \<and> m = NoHayMesas (client_name current) (party_size current)
             \<and> (find_suitable_table s (party_size current) = None
                 \<or> find_suitable_table s (party_size current) = Some 0
                 \<or> (\<exists>c free. find_suitable_table s (party_size current) = Some c
                       \<and> map_of (tables s) c = Some free \<and> free \<le> 0)))
       \<or> (\<exists>current rest c free. head s = current # rest \<and> ok
             \<and> m = Llamando (client_name current) c
             \<and> find_suitable_table s (party_size current) = Some c \<and> c \<noteq> 0
             \<and> map_of (tables s) c = Some free \<and> 0 < free
             \<and> s' = s\<lparr>tables := AList.update c (free - 1) (tables s), head := rest\<rparr>)"
  using assms
  by (auto simp: call_next_table_def getitem_def Let_def
           split: list.splits option.splits if_splits sum.splits)

lemma capacities_positiveD:
  "capacities_positive s \<Longrightarrow> smallest_fit s p c \<Longrightarrow> 0 < c"
  by (auto simp: capacities_positive_def smallest_fit_def list_all_iff)

lemma counts_nonnegD:
  "counts_nonneg s \<Longrightarrow> map_of (tables s) c = Some free \<Longrightarrow> 0 \<le> free"
  by (auto simp: counts_nonneg_def list_all_iff dest!: map_of_SomeD)

lemma map_fst_update: "k \<in> set (map fst al) \<Longrightarrow> map fst (AList.update k v al) = map fst al"
  by (induction al) auto

text \<open>
  C1. In a state whose table sizes are positive and whose chain is not empty: when the
  smallest table size \<open>c\<close> that is at least the party size of the first node exists
  and has a count above 0, \<^verbatim>\<open>call_next_table\<close> succeeds with the first node's name
  and \<open>c\<close>, the chain loses exactly its first node (the rest keeps its order), the
  count of \<open>c\<close> goes down by exactly 1 and nothing else in the dictionary changes.
  Whenever a call succeeds, the assigned size is at least the party size of the first
  node and is the smallest such key.
\<close>

theorem call_next_table_seats_head:
  assumes "capacities_positive s" and "head s = current # rest"
  shows "(smallest_fit s (party_size current) c \<and> map_of (tables s) c = Some free \<and> 0 < free
            \<longrightarrow> (\<exists>s'. call_next_table s = Inr ((True, Llamando (client_name current) c), s')
                   \<and> head s' = rest
                   \<and> map_of (tables s') = (map_of (tables s))(c \<mapsto> free - 1)
                   \<and> map fst (tables s') = map fst (tables s)
                   \<and> wait_time_per_table s' = wait_time_per_table s))
       \<and> (call_next_table s = Inr ((True, Llamando n t), s'')
            \<longrightarrow> n = client_name current \<and> party_size current \<le> t
                \<and> smallest_fit s (party_size current) t)"
proof (intro conjI impI)
  assume a: "smallest_fit s (party_size current) c \<and> map_of (tables s) c = Some free \<and> 0 < free"
  then have f: "find_suitable_table s (party_size current) = Some c"
    by (simp add: find_suitable_table_Some)
  from a assms(1) have "c \<noteq> 0" using capacities_positiveD by fastforce
  with a f assms(2) have
    "call_next_table s =
       Inr ((True, Llamando (client_name current) c),
            s\<lparr>tables := AList.update c (free - 1) (tables s), head := rest\<rparr>)"
    by (simp add: call_next_table_seated)
  moreover from a have "c \<in> set (map fst (tables s))" by (simp add: smallest_fit_def)
  ultimately show
    "\<exists>s'. call_next_table s = Inr ((True, Llamando (client_name current) c), s')
        \<and> head s' = rest
        \<and> map_of (tables s') = (map_of (tables s))(c \<mapsto> free - 1)
        \<and> map fst (tables s') = map fst (tables s)
        \<and> wait_time_per_table s' = wait_time_per_table s"
    by (simp add: update_conv' map_fst_update)
next
  assume "call_next_table s = Inr ((True, Llamando n t), s'')"
  from call_next_table_cases [OF this] assms(2)
  have "n = client_name current \<and> find_suitable_table s (party_size current) = Some t"
    by auto
  then have *: "n = client_name current \<and> smallest_fit s (party_size current) t"
    by (simp add: find_suitable_table_Some)
  then show "n = client_name current" by simp
  from * show "smallest_fit s (party_size current) t" by simp
  from * show "party_size current \<le> t" by (simp add: smallest_fit_def)
qed

theorem call_next_table_seats_head_witness:
  "capacities_positive \<lparr>head = [\<lparr>client_name = ''Ana'', party_size = 2, reservation_time = ''19:00''\<rparr>],
                         tables = [(2, 1), (4, 0), (6, 0)], wait_time_per_table = 30\<rparr>
   \<and> smallest_fit \<lparr>head = [\<lparr>client_name = ''Ana'', party_size = 2, reservation_time = ''19:00''\<rparr>],
                    tables = [(2, 1), (4, 0), (6, 0)], wait_time_per_table = 30\<rparr> 2 2
   \<and> (\<exists>s'. call_next_table
              \<lparr>head = [\<lparr>client_name = ''Ana'', party_size = 2, reservation_time = ''19:00''\<rparr>],
               tables = [(2, 1), (4, 0), (6, 0)], wait_time_per_table = 30\<rparr>
            = Inr ((True, Llamando ''Ana'' 2), s')
          \<and> head s' = [] \<and> map_of (tables s') 2 = Some 0 \<and> map_of (tables s') 4 = Some 0)"
proof -
  let ?ana = "\<lparr>client_name = ''Ana'', party_size = 2, reservation_time = ''19:00''\<rparr>"
  let ?s = "\<lparr>head = [?ana], tables = [(2, 1), (4, 0), (6, 0)], wait_time_per_table = 30\<rparr>"
  have pos: "capacities_positive ?s" by (simp add: capacities_positive_def)
  have hd: "head ?s = ?ana # []" by simp
  have fit: "smallest_fit ?s 2 2" by (simp add: smallest_fit_def)
  have prem: "smallest_fit ?s (party_size ?ana) 2 \<and> map_of (tables ?s) 2 = Some 1 \<and> (0::int) < 1"
    by (simp add: smallest_fit_def)
  from call_next_table_seats_head [OF pos hd, of 2 1, THEN conjunct1, THEN mp, OF prem]
  obtain s' where a: "call_next_table ?s = Inr ((True, Llamando (client_name ?ana) 2), s')"
    and b: "head s' = []" and c: "map_of (tables s') = (map_of (tables ?s))(2 \<mapsto> 1 - 1)"
    by blast
  from c have "map_of (tables s') 2 = Some 0 \<and> map_of (tables s') 4 = Some 0"
    by simp
  with a b have "\<exists>s'. call_next_table ?s = Inr ((True, Llamando ''Ana'' 2), s')
          \<and> head s' = [] \<and> map_of (tables s') 2 = Some 0 \<and> map_of (tables s') 4 = Some 0"
    by auto
  with pos fit show ?thesis by simp
qed

text \<open>
  The condition on the table sizes cannot be dropped for states outside the data model:
  the truthiness test reads a key 0 as no table, even with free tables of that size.
  No reachable state has such a key.
\<close>

lemma call_next_table_size_zero:
  "call_next_table
     \<lparr>head = [\<lparr>client_name = ''Ana'', party_size = 0, reservation_time = ''19:00''\<rparr>],
      tables = [(0, 1)], wait_time_per_table = 30\<rparr>
   = Inr ((False, NoHayMesas ''Ana'' 0),
     \<lparr>head = [\<lparr>client_name = ''Ana'', party_size = 0, reservation_time = ''19:00''\<rparr>],
      tables = [(0, 1)], wait_time_per_table = 30\<rparr>)"
  by (simp add: call_next_table_def find_suitable_table_def)

lemma call_next_table_head_only:
  assumes "tables t = tables s" and "take (Suc 0) (head t) = take (Suc 0) (head s)"
    and "call_next_table s = Inr (res, s')"
  shows "\<exists>t'. call_next_table t = Inr (res, t')"
proof (cases "head s")
  case Nil
  with assms(2) have "head t = []" by simp
  with Nil assms(3) show ?thesis by (auto simp: call_next_table_def)
next
  case (Cons current rest)
  with assms(2) obtain rest' where t: "head t = current # rest'"
    by (cases "head t") auto
  have f: "find_suitable_table t p = find_suitable_table s p" for p
    by (simp add: find_suitable_table_def assms(1))
  from assms(3) show ?thesis
    by (auto simp: call_next_table_def Let_def Cons t f assms(1)
             split: option.splits sum.splits if_splits)
qed

text \<open>
  C2. With positive table sizes and counts that are not negative, a call that returns
  \<open>(ok, m)\<close>: \<open>m\<close> is the empty-list message exactly when the chain is empty; \<open>m\<close> is
  the no-table message exactly when the chain is not empty and either no key is at least
  the party size of the first node or the smallest such key has count 0; the call fails
  exactly with one of these two messages; a failed call returns the state it was given;
  and any state with the same dictionary and the same first node gets the same flag and
  message, whatever follows the first node.
\<close>

theorem call_next_table_failure:
  assumes "capacities_positive s" and "counts_nonneg s"
    and "call_next_table s = Inr ((ok, m), s')"
  shows "(m = NoHayClientes \<longleftrightarrow> head s = [])
       \<and> ((\<exists>n p. m = NoHayMesas n p) \<longleftrightarrow>
            (\<exists>current rest. head s = current # rest
               \<and> (list_all (\<lambda>k. k < party_size current) (map fst (tables s))
                   \<or> (\<exists>c. smallest_fit s (party_size current) c
                          \<and> map_of (tables s) c = Some 0))))
       \<and> (\<not> ok \<longleftrightarrow> m = NoHayClientes \<or> (\<exists>n p. m = NoHayMesas n p))
       \<and> (\<not> ok \<longrightarrow> s' = s)
       \<and> (\<forall>t. tables t = tables s \<and> take (Suc 0) (head t) = take (Suc 0) (head s)
              \<longrightarrow> (\<exists>t'. call_next_table t = Inr ((ok, m), t')))"
proof -
  note c = call_next_table_cases [OF assms(3)]
  have zero: "free = 0" if "map_of (tables s) c = Some free" "free \<le> 0" for c free
    using counts_nonnegD [OF assms(2) that(1)] that(2) by simp
  have nz: "find_suitable_table s p \<noteq> Some 0" for p
    using capacities_positiveD [OF assms(1), of p 0] by (auto simp: find_suitable_table_Some)
  have 1: "m = NoHayClientes \<longleftrightarrow> head s = []"
    using c by auto
  have 2: "(\<exists>n p. m = NoHayMesas n p) \<longleftrightarrow>
            (\<exists>current rest. head s = current # rest
               \<and> (list_all (\<lambda>k. k < party_size current) (map fst (tables s))
                   \<or> (\<exists>c. smallest_fit s (party_size current) c
                          \<and> map_of (tables s) c = Some 0)))"
    (is "?L \<longleftrightarrow> ?R")
  proof
    assume ?L
    with c obtain current rest where h: "head s = current # rest"
      and d: "find_suitable_table s (party_size current) = None
                 \<or> find_suitable_table s (party_size current) = Some 0
                 \<or> (\<exists>c free. find_suitable_table s (party_size current) = Some c
                       \<and> map_of (tables s) c = Some free \<and> free \<le> 0)"
      by auto
    from d nz have "find_suitable_table s (party_size current) = None
        \<or> (\<exists>c. find_suitable_table s (party_size current) = Some c
               \<and> map_of (tables s) c = Some 0)"
      using zero by blast
    with h show ?R
      by (auto simp: find_suitable_table_None find_suitable_table_Some)
  next
    assume ?R
    then obtain current rest where h: "head s = current # rest"
      and d: "find_suitable_table s (party_size current) = None
                \<or> (\<exists>c. find_suitable_table s (party_size current) = Some c
                       \<and> map_of (tables s) c = Some 0)"
      by (auto simp: find_suitable_table_None find_suitable_table_Some)
    from c h d show ?L by auto
  qed
  have 3: "\<not> ok \<longleftrightarrow> m = NoHayClientes \<or> (\<exists>n p. m = NoHayMesas n p)"
    using c by auto
  have 4: "\<not> ok \<longrightarrow> s' = s"
    using c by auto
  have 5: "\<forall>t. tables t = tables s \<and> take (Suc 0) (head t) = take (Suc 0) (head s)
              \<longrightarrow> (\<exists>t'. call_next_table t = Inr ((ok, m), t'))"
    using call_next_table_head_only [OF _ _ assms(3)] by blast
  from 1 2 3 4 5 show ?thesis by blast
qed

theorem call_next_table_failure_witness:
  "capacities_positive
     \<lparr>head = [\<lparr>client_name = ''Grande'', party_size = 8, reservation_time = ''20:00''\<rparr>,
              \<lparr>client_name = ''Bob'', party_size = 2, reservation_time = ''20:05''\<rparr>],
      tables = [(2, 5), (4, 3), (6, 2)], wait_time_per_table = 30\<rparr>
   \<and> counts_nonneg
     \<lparr>head = [\<lparr>client_name = ''Grande'', party_size = 8, reservation_time = ''20:00''\<rparr>,
              \<lparr>client_name = ''Bob'', party_size = 2, reservation_time = ''20:05''\<rparr>],
      tables = [(2, 5), (4, 3), (6, 2)], wait_time_per_table = 30\<rparr>
   \<and> call_next_table
     \<lparr>head = [\<lparr>client_name = ''Grande'', party_size = 8, reservation_time = ''20:00''\<rparr>,
              \<lparr>client_name = ''Bob'', party_size = 2, reservation_time = ''20:05''\<rparr>],
      tables = [(2, 5), (4, 3), (6, 2)], wait_time_per_table = 30\<rparr>
     = Inr ((False, NoHayMesas ''Grande'' 8),
     \<lparr>head = [\<lparr>client_name = ''Grande'', party_size = 8, reservation_time = ''20:00''\<rparr>,
              \<lparr>client_name = ''Bob'', party_size = 2, reservation_time = ''20:05''\<rparr>],
      tables = [(2, 5), (4, 3), (6, 2)], wait_time_per_table = 30\<rparr>)
   \<and> (\<exists>t'. call_next_table
     \<lparr>head = [\<lparr>client_name = ''Grande'', party_size = 8, reservation_time = ''20:00''\<rparr>],
      tables = [(2, 5), (4, 3), (6, 2)], wait_time_per_table = 30\<rparr>
     = Inr ((False, NoHayMesas ''Grande'' 8), t'))"
proof -
  let ?g = "\<lparr>client_name = ''Grande'', party_size = 8, reservation_time = ''20:00''\<rparr>"
  let ?b = "\<lparr>client_name = ''Bob'', party_size = 2, reservation_time = ''20:05''\<rparr>"
  let ?s = "\<lparr>head = [?g, ?b], tables = [(2, 5), (4, 3), (6, 2)], wait_time_per_table = 30\<rparr>"
  let ?t = "\<lparr>head = [?g], tables = [(2, 5), (4, 3), (6, 2)], wait_time_per_table = 30\<rparr>"
  have pos: "capacities_positive ?s" by (simp add: capacities_positive_def)
  have nn: "counts_nonneg ?s" by (simp add: counts_nonneg_def)
  have run: "call_next_table ?s = Inr ((False, NoHayMesas ''Grande'' 8), ?s)"
    by (simp add: call_next_table_def find_suitable_table_def)
  have same: "tables ?t = tables ?s \<and> take (Suc 0) (head ?t) = take (Suc 0) (head ?s)"
    by simp
  from call_next_table_failure [OF pos nn run] have
    "\<forall>t. tables t = tables ?s \<and> take (Suc 0) (head t) = take (Suc 0) (head ?s)
         \<longrightarrow> (\<exists>t'. call_next_table t = Inr ((False, NoHayMesas ''Grande'' 8), t'))"
    by blast
  then have "\<exists>t'. call_next_table ?t = Inr ((False, NoHayMesas ''Grande'' 8), t')"
    using same by blast
  with pos nn run show ?thesis by blast
qed

lemma head_add_clients:
  "head (add_clients s cs) =
     head s @ map (\<lambda>(n, p, t). \<lparr>client_name = n, party_size = p, reservation_time = t\<rparr>) cs"
  by (induction s cs rule: add_clients.induct) (simp_all add: add_client_def link_last_append)

lemma tables_add_clients: "tables (add_clients s cs) = tables s"
  by (induction s cs rule: add_clients.induct) (simp_all add: add_client_def)

lemma call_next_tables_total: "\<exists>rs s'. call_next_tables k s = Inr (rs, s')"
proof (induction k arbitrary: s)
  case 0
  show ?case by simp
next
  case (Suc k)
  obtain r s1 where 1: "call_next_table s = Inr (r, s1)"
    using call_next_table_total [of s] by (metis surj_pair)
  from Suc [of s1] obtain rs s2 where "call_next_tables k s1 = Inr (rs, s2)" by blast
  with 1 show ?case by simp
qed

lemma call_next_tables_serves_prefix:
  assumes "call_next_tables k s = Inr (rs, s')" and "list_all fst rs"
  shows "k \<le> length (head s) \<and> length rs = k
       \<and> map called rs = map (\<lambda>n. Some (client_name n)) (take k (head s))
       \<and> head s' = drop k (head s)"
  using assms
proof (induction k arbitrary: s rs)
  case 0
  then show ?case by simp
next
  case (Suc k)
  from Suc.prems(1) obtain r s1 rs1 where 1: "call_next_table s = Inr (r, s1)"
    and 2: "call_next_tables k s1 = Inr (rs1, s')" and 3: "rs = r # rs1"
    by (auto split: sum.splits)
  from Suc.prems(2) 3 have ok: "fst r" and oks: "list_all fst rs1" by simp_all
  obtain b m where r: "r = (b, m)" by (cases r)
  with ok have b by simp
  from call_next_table_cases [OF 1 [unfolded r]] \<open>b\<close>
  obtain current rest c where h: "head s = current # rest"
    and m: "m = Llamando (client_name current) c" and h1: "head s1 = rest"
    by auto
  from Suc.IH [OF 2 oks] h h1 m r 3 \<open>b\<close> show ?case by simp
qed

text \<open>
  C3. Starting with an empty chain, after the clients \<open>cs\<close> are added in this order,
  \<open>k\<close> calls of \<^verbatim>\<open>call_next_table\<close> that all succeed serve the first \<open>k\<close> clients
  added, in the order in which they were added: the i-th call returns the name of the
  i-th client. (More than \<open>length cs\<close> calls cannot all succeed.)
\<close>

theorem fifo_order:
  assumes "head s = []"
    and "call_next_tables k (add_clients s cs) = Inr (rs, s')"
    and "list_all fst rs"
  shows "k \<le> length cs \<and> length rs = k
       \<and> map called rs = map (\<lambda>(n, p, t). Some n) (take k cs)"
proof -
  have "map (\<lambda>n. Some (client_name n))
          (take k (map (\<lambda>(n, p, t). \<lparr>client_name = n, party_size = p, reservation_time = t\<rparr>) cs))
        = map (\<lambda>(n, p, t). Some n) (take k cs)"
    by (simp add: take_map split_def)
  with call_next_tables_serves_prefix [OF assms(2,3)] assms(1) show ?thesis
    by (simp add: head_add_clients)
qed

theorem fifo_order_witness:
  "head init = []
   \<and> call_next_tables 3 (add_clients init [(''Ana'', 2, ''19:00''), (''Bob'', 4, ''19:05''), (''Cruz'', 2, ''19:10'')])
       = Inr ([(True, Llamando ''Ana'' 2), (True, Llamando ''Bob'' 4), (True, Llamando ''Cruz'' 2)],
              \<lparr>head = [], tables = [(2, 3), (4, 2), (6, 2)], wait_time_per_table = 30\<rparr>)
   \<and> map called [(True, Llamando ''Ana'' 2), (True, Llamando ''Bob'' 4), (True, Llamando ''Cruz'' 2)]
       = [Some ''Ana'', Some ''Bob'', Some ''Cruz'']"
proof -
  let ?cs = "[(''Ana'', 2::int, ''19:00''), (''Bob'', 4, ''19:05''), (''Cruz'', 2, ''19:10'')]"
  let ?rs = "[(True, Llamando ''Ana'' 2), (True, Llamando ''Bob'' 4), (True, Llamando ''Cruz'' 2)]"
  let ?s' = "\<lparr>head = [], tables = [(2, 3), (4, 2), (6, 2)], wait_time_per_table = 30\<rparr>"
  have e: "head init = []" by (simp add: init_def)
  have run: "call_next_tables 3 (add_clients init ?cs) = Inr (?rs, ?s')"
    by (simp add: eval_nat_numeral init_def add_client_def call_next_table_def
          find_suitable_table_def getitem_def)
  have ok: "list_all fst ?rs" by simp
  from fifo_order [OF e run ok] have "map called ?rs = map (\<lambda>(n, p, t). Some n) (take 3 ?cs)"
    by blast
  then have "map called ?rs = [Some ''Ana'', Some ''Bob'', Some ''Cruz'']" by simp
  with e run show ?thesis by blast
qed

lemma unlink_first_match:
  "cname \<notin> client_name ` set xs \<Longrightarrow> client_name e = cname \<Longrightarrow>
     unlink (xs @ e # ys) cname = Some (xs @ ys)"
  by (induction xs) auto

lemma unlink_absent: "cname \<notin> client_name ` set ns \<Longrightarrow> unlink ns cname = None"
  by (induction ns) auto

text \<open>
  C4 (amended). \<^verbatim>\<open>cancel_reservation\<close> removes exactly the first node, from the head
  on, whose name equals the argument, succeeds, and keeps the order of all other nodes;
  with several nodes of that name only the first goes. On a chain that is not empty and
  has no node of that name it fails with the not-found message and returns the state it
  was given. On an empty chain it fails with a message of its own, the empty-list
  message, and returns the state it was given.
\<close>

theorem cancel_reservation_first_match:
  "(head s = xs @ e # ys \<and> client_name e = cname \<and> cname \<notin> client_name ` set xs
      \<longrightarrow> cancel_reservation s cname = ((True, Cancelada cname), s\<lparr>head := xs @ ys\<rparr>))
   \<and> (head s \<noteq> [] \<and> cname \<notin> client_name ` set (head s)
      \<longrightarrow> cancel_reservation s cname = ((False, NoSeEncontro cname), s))
   \<and> (head s = [] \<longrightarrow> cancel_reservation s cname = ((False, ListaVacia), s))"
proof (intro conjI impI)
  assume a: "head s = xs @ e # ys \<and> client_name e = cname \<and> cname \<notin> client_name ` set xs"
  show "cancel_reservation s cname = ((True, Cancelada cname), s\<lparr>head := xs @ ys\<rparr>)"
  proof (cases xs)
    case Nil
    with a show ?thesis by (simp add: cancel_reservation_def)
  next
    case (Cons first xs')
    with a have "client_name first \<noteq> cname" and "cname \<notin> client_name ` set xs'"
      by auto
    with a Cons show ?thesis
      by (simp add: cancel_reservation_def unlink_first_match)
  qed
next
  assume "head s \<noteq> [] \<and> cname \<notin> client_name ` set (head s)"
  then obtain first rest where "head s = first # rest" "client_name first \<noteq> cname"
    "cname \<notin> client_name ` set rest"
    by (cases "head s") auto
  then show "cancel_reservation s cname = ((False, NoSeEncontro cname), s)"
    by (simp add: cancel_reservation_def unlink_absent)
next
  assume "head s = []"
  then show "cancel_reservation s cname = ((False, ListaVacia), s)"
    by (simp add: cancel_reservation_def)
qed

theorem cancel_reservation_first_match_witness:
  "cancel_reservation
     \<lparr>head = [\<lparr>client_name = ''A'', party_size = 2, reservation_time = ''19:00''\<rparr>,
              \<lparr>client_name = ''B'', party_size = 4, reservation_time = ''19:05''\<rparr>,
              \<lparr>client_name = ''C'', party_size = 2, reservation_time = ''19:10''\<rparr>,
              \<lparr>client_name = ''B'', party_size = 6, reservation_time = ''19:15''\<rparr>],
      tables = [(2, 5), (4, 3), (6, 2)], wait_time_per_table = 30\<rparr> ''B''
   = ((True, Cancelada ''B''),
     \<lparr>head = [\<lparr>client_name = ''A'', party_size = 2, reservation_time = ''19:00''\<rparr>,
              \<lparr>client_name = ''C'', party_size = 2, reservation_time = ''19:10''\<rparr>,
              \<lparr>client_name = ''B'', party_size = 6, reservation_time = ''19:15''\<rparr>],
      tables = [(2, 5), (4, 3), (6, 2)], wait_time_per_table = 30\<rparr>)
   \<and> cancel_reservation
     \<lparr>head = [\<lparr>client_name = ''A'', party_size = 2, reservation_time = ''19:00''\<rparr>],
      tables = [(2, 5), (4, 3), (6, 2)], wait_time_per_table = 30\<rparr> ''Zed''
   = ((False, NoSeEncontro ''Zed''),
     \<lparr>head = [\<lparr>client_name = ''A'', party_size = 2, reservation_time = ''19:00''\<rparr>],
      tables = [(2, 5), (4, 3), (6, 2)], wait_time_per_table = 30\<rparr>)
   \<and> cancel_reservation init ''Zed'' = ((False, ListaVacia), init)"
proof -
  let ?a = "\<lparr>client_name = ''A'', party_size = 2, reservation_time = ''19:00''\<rparr>"
  let ?b = "\<lparr>client_name = ''B'', party_size = 4, reservation_time = ''19:05''\<rparr>"
  let ?c = "\<lparr>client_name = ''C'', party_size = 2, reservation_time = ''19:10''\<rparr>"
  let ?b2 = "\<lparr>client_name = ''B'', party_size = 6, reservation_time = ''19:15''\<rparr>"
  let ?s = "\<lparr>head = [?a, ?b, ?c, ?b2], tables = [(2, 5), (4, 3), (6, 2)], wait_time_per_table = 30\<rparr>"
  let ?t = "\<lparr>head = [?a], tables = [(2, 5), (4, 3), (6, 2)], wait_time_per_table = 30\<rparr>"
  have 1: "head ?s = [?a] @ ?b # [?c, ?b2] \<and> client_name ?b = ''B''
             \<and> ''B'' \<notin> client_name ` set [?a]"
    by simp
  have 2: "head ?t \<noteq> [] \<and> ''Zed'' \<notin> client_name ` set (head ?t)" by simp
  have 3: "head init = []" by (simp add: init_def)
  from cancel_reservation_first_match [of ?s "[?a]" ?b "[?c, ?b2]" "''B''"] 1
  have "cancel_reservation ?s ''B'' = ((True, Cancelada ''B''), ?s\<lparr>head := [?a] @ [?c, ?b2]\<rparr>)"
    by blast
  moreover from cancel_reservation_first_match [of ?t _ _ _ "''Zed''"] 2
  have "cancel_reservation ?t ''Zed'' = ((False, NoSeEncontro ''Zed''), ?t)"
    by blast
  moreover from cancel_reservation_first_match [of init _ _ _ "''Zed''"] 3
  have "cancel_reservation init ''Zed'' = ((False, ListaVacia), init)"
    by blast
  ultimately show ?thesis by simp
qed

text \<open>
  C4 as stated fails on the empty chain: the result is the empty-list message, which is
  not the not-found message.
\<close>

theorem cancel_reservation_empty_counterexample:
  "fst (cancel_reservation init ''Zed'') = (False, ListaVacia)
   \<and> fst (cancel_reservation init ''Zed'') \<noteq> (False, NoSeEncontro ''Zed'')"
  by (simp add: cancel_reservation_def init_def)

lemma update_values:
  "list_all P (map snd al) \<Longrightarrow> P v \<Longrightarrow> list_all P (map snd (AList.update k v al))"
  by (induction al) auto

lemma map_fst_update_present:
  "map_of al k = Some v \<Longrightarrow> map fst (AList.update k w al) = map fst al"
  by (induction al) (auto split: if_splits)

lemma tables_cancel_reservation: "tables (snd (cancel_reservation s cname)) = tables s"
  by (simp add: cancel_reservation_def split: list.splits option.splits)

lemma apply_operation_tables:
  "(case op of
      CallNextTable \<Rightarrow>
        tables (apply_operation s op) = tables s
        \<or> (\<exists>c free. map_of (tables s) c = Some free \<and> 0 < free
              \<and> tables (apply_operation s op) = AList.update c (free - 1) (tables s))
    | FreeTable c \<Rightarrow>
        tables (apply_operation s op) = tables s
        \<or> (\<exists>free. map_of (tables s) c = Some free
              \<and> tables (apply_operation s op) = AList.update c (free + 1) (tables s))
    | _ \<Rightarrow> tables (apply_operation s op) = tables s)"
proof (cases op)
  case CallNextTable
  obtain ok m s' where r: "call_next_table s = Inr ((ok, m), s')"
    using call_next_table_total [of s] by (metis surj_pair)
  from call_next_table_cases [OF r] have
    "tables s' = tables s
     \<or> (\<exists>c free. map_of (tables s) c = Some free \<and> 0 < free
           \<and> tables s' = AList.update c (free - 1) (tables s))"
    by (elim disjE exE conjE) (simp_all, blast)
  with r CallNextTable show ?thesis by simp
next
  case (FreeTable c)
  then show ?thesis by (simp add: free_table_def split: option.splits)
qed (simp_all add: add_client_def tables_cancel_reservation)

lemma apply_operation_invariant:
  assumes "counts_nonneg s" and "map fst (tables s) = ks"
  shows "counts_nonneg (apply_operation s op) \<and> map fst (tables (apply_operation s op)) = ks"
proof -
  have upd: "counts_nonneg (s'\<lparr>tables := AList.update c v (tables s)\<rparr>)" if "0 \<le> v" for s' c v
    using assms(1) that by (simp add: counts_nonneg_def update_values)
  note t = apply_operation_tables [where op = op and s = s]
  show ?thesis
  proof (cases op)
    case CallNextTable
    with t consider "tables (apply_operation s op) = tables s"
      | c free where "map_of (tables s) c = Some free" "0 < free"
          "tables (apply_operation s op) = AList.update c (free - 1) (tables s)"
      by auto
    then show ?thesis
    proof cases
      case 1
      with assms show ?thesis by (simp add: counts_nonneg_def)
    next
      case 2
      with assms show ?thesis
        by (simp add: counts_nonneg_def update_values map_fst_update_present)
    qed
  next
    case (FreeTable c)
    with t consider "tables (apply_operation s op) = tables s"
      | free where "map_of (tables s) c = Some free"
          "tables (apply_operation s op) = AList.update c (free + 1) (tables s)"
      by auto
    then show ?thesis
    proof cases
      case 1
      with assms show ?thesis by (simp add: counts_nonneg_def)
    next
      case 2
      from counts_nonnegD [OF assms(1) 2(1)] have "0 \<le> free + 1" by simp
      with 2 assms show ?thesis
        by (simp add: counts_nonneg_def update_values map_fst_update_present)
    qed
  next
    case (AddClient n p t')
    with t assms show ?thesis by (simp add: counts_nonneg_def)
  next
    case GetWaitlist
    with t assms show ?thesis by (simp add: counts_nonneg_def)
  next
    case (CancelReservation n)
    with t assms show ?thesis by (simp add: counts_nonneg_def)
  next
    case (EstimateWaitTime p)
    with t assms show ?thesis by (simp add: counts_nonneg_def)
  qed
qed

lemma foldl_invariant:
  "counts_nonneg s \<Longrightarrow> map fst (tables s) = ks \<Longrightarrow>
     counts_nonneg (foldl apply_operation s ops)
     \<and> map fst (tables (foldl apply_operation s ops)) = ks"
proof (induction ops arbitrary: s)
  case Nil
  then show ?case by simp
next
  case (Cons op ops)
  from apply_operation_invariant [OF Cons.prems, of op] Cons.IH show ?case by simp
qed

lemma reachable_invariant:
  "counts_nonneg (reachable ops) \<and> map fst (tables (reachable ops)) = [2, 4, 6]"
  unfolding reachable_def
  by (rule foldl_invariant) (simp_all add: init_def counts_nonneg_def)

lemma reachable_capacities_positive: "capacities_positive (reachable ops)"
  by (simp add: capacities_positive_def reachable_invariant)

lemma apply_operation_wait_time:
  "wait_time_per_table (apply_operation s op) = wait_time_per_table s"
proof (cases op)
  case CallNextTable
  obtain ok m s' where r: "call_next_table s = Inr ((ok, m), s')"
    using call_next_table_total [of s] by (metis surj_pair)
  from call_next_table_cases [OF r] have "wait_time_per_table s' = wait_time_per_table s"
    by (elim disjE exE conjE) simp_all
  with r CallNextTable show ?thesis by simp
next
  case (CancelReservation cname)
  then show ?thesis by (simp add: cancel_reservation_def split: list.splits option.splits)
qed (simp_all add: add_client_def free_table_def split: option.splits)

lemma reachable_wait_time: "wait_time_per_table (reachable ops) = 30"
proof -
  have "wait_time_per_table (foldl apply_operation s ops) = wait_time_per_table s" for s
    by (induction ops arbitrary: s) (simp_all add: apply_operation_wait_time)
  then show ?thesis by (simp add: reachable_def init_def)
qed

text \<open>
  C5. In every state reached from \<open>init\<close> by any sequence of operations, no count of
  free tables is negative. In any state, an operation other than \<^verbatim>\<open>call_next_table\<close>
  and \<^verbatim>\<open>free_table\<close> leaves the dictionary as it is; \<^verbatim>\<open>call_next_table\<close> leaves it
  as it is or lowers one count that was above 0 by 1; \<^verbatim>\<open>free_table\<close> leaves it as it
  is or raises one count by 1.
\<close>

theorem counts_never_negative:
  "counts_nonneg (reachable ops)
   \<and> (case op of
        CallNextTable \<Rightarrow>
          tables (apply_operation s op) = tables s
          \<or> (\<exists>c free. map_of (tables s) c = Some free \<and> 0 < free
                \<and> tables (apply_operation s op) = AList.update c (free - 1) (tables s))
      | FreeTable c \<Rightarrow>
          tables (apply_operation s op) = tables s
          \<or> (\<exists>free. map_of (tables s) c = Some free
                \<and> tables (apply_operation s op) = AList.update c (free + 1) (tables s))
      | _ \<Rightarrow> tables (apply_operation s op) = tables s)"
  using reachable_invariant [of ops] apply_operation_tables [where op = op and s = s] by blast

theorem counts_never_negative_witness:
  "counts_nonneg (reachable [AddClient ''Ana'' 6 ''19:00'', AddClient ''Bob'' 6 ''19:05'',
      AddClient ''Cruz'' 6 ''19:10'', CallNextTable, CallNextTable, CallNextTable,
      FreeTable 4, FreeTable 3])
   \<and> tables (reachable [AddClient ''Ana'' 6 ''19:00'', AddClient ''Bob'' 6 ''19:05'',
      AddClient ''Cruz'' 6 ''19:10'', CallNextTable, CallNextTable, CallNextTable,
      FreeTable 4, FreeTable 3]) = [(2, 5), (4, 4), (6, 0)]"
proof -
  let ?ops = "[AddClient ''Ana'' 6 ''19:00'', AddClient ''Bob'' 6 ''19:05'',
      AddClient ''Cruz'' 6 ''19:10'', CallNextTable, CallNextTable, CallNextTable,
      FreeTable 4, FreeTable 3]"
  have "tables (reachable ?ops) = [(2, 5), (4, 4), (6, 0)]"
    by (simp add: reachable_def init_def add_client_def call_next_table_def
          find_suitable_table_def getitem_def free_table_def)
  with counts_never_negative [where ops = ?ops and op = GetWaitlist and s = init] show ?thesis by simp
qed

lemma count_groups_filter:
  "count_groups ns p count = count + int (length (filter (\<lambda>n. party_size n \<le> p) ns))"
  by (induction ns arbitrary: count) simp_all

text \<open>
  C6. \<^verbatim>\<open>estimate_wait_time\<close> returns a number and no state. In a state with positive
  table sizes and a turnover time that is not negative, with \<open>count\<close> the number of
  nodes whose party size is at most the argument (every node of the chain is counted):
  the result is \<open>count * wait_time_per_table\<close> when no key is at least the argument or
  the smallest such key has count 0, and \<open>max 0 ((count - free) * wait_time_per_table)\<close>
  when the smallest such key has the count \<open>free \<noteq> 0\<close>. The result is never negative,
  in any state.
\<close>

theorem estimate_wait_time_value:
  assumes "capacities_positive s" and "0 \<le> wait_time_per_table s"
    and "count = int (length (filter (\<lambda>n. party_size n \<le> p) (head s)))"
  shows "(list_all (\<lambda>k. k < p) (map fst (tables s))
            \<or> (\<exists>c. smallest_fit s p c \<and> map_of (tables s) c = Some 0)
          \<longrightarrow> estimate_wait_time s p = Inr (count * wait_time_per_table s))
       \<and> (smallest_fit s p c \<and> map_of (tables s) c = Some free \<and> free \<noteq> 0
          \<longrightarrow> estimate_wait_time s p = Inr (max 0 ((count - free) * wait_time_per_table s)))
       \<and> (\<exists>w. estimate_wait_time s p = Inr w \<and> 0 \<le> w)
       \<and> (\<forall>t w. estimate_wait_time t p = Inr w \<longrightarrow> 0 \<le> w)"
proof (intro conjI impI allI)
  have c: "count_groups (head s) p 0 = count"
    by (simp add: count_groups_filter assms(3))
  have nonneg: "max 0 (count * wait_time_per_table s) = count * wait_time_per_table s"
    using assms(2,3) by simp
  {
    assume "list_all (\<lambda>k. k < p) (map fst (tables s))
            \<or> (\<exists>c. smallest_fit s p c \<and> map_of (tables s) c = Some 0)"
    then have "find_suitable_table s p = None
        \<or> (\<exists>c. find_suitable_table s p = Some c \<and> map_of (tables s) c = Some 0)"
      by (simp add: find_suitable_table_None find_suitable_table_Some)
    then show "estimate_wait_time s p = Inr (count * wait_time_per_table s)"
      using c nonneg by (auto simp: estimate_wait_time_def getitem_def Let_def)
  }
  {
    assume a: "smallest_fit s p c \<and> map_of (tables s) c = Some free \<and> free \<noteq> 0"
    with assms(1) have "c \<noteq> 0" using capacities_positiveD by fastforce
    with a show "estimate_wait_time s p = Inr (max 0 ((count - free) * wait_time_per_table s))"
      using c by (simp add: estimate_wait_time_def getitem_def Let_def find_suitable_table_Some [symmetric])
  }
  show "\<exists>w. estimate_wait_time s p = Inr w \<and> 0 \<le> w"
  proof (cases "find_suitable_table s p")
    case None
    then show ?thesis by (simp add: estimate_wait_time_def Let_def)
  next
    case (Some k)
    then have "k \<in> set (map fst (tables s))"
      by (simp add: find_suitable_table_Some smallest_fit_def)
    from getitem_key [OF this] obtain v where "getitem (tables s) k = Inr v" by blast
    with Some show ?thesis by (simp add: estimate_wait_time_def Let_def)
  qed
  fix t w
  assume "estimate_wait_time t p = Inr w"
  then show "0 \<le> w"
    by (auto simp: estimate_wait_time_def Let_def split: option.splits if_splits sum.splits)
qed

theorem estimate_wait_time_value_witness:
  "capacities_positive
     \<lparr>head = [\<lparr>client_name = ''A'', party_size = 2, reservation_time = ''19:00''\<rparr>,
              \<lparr>client_name = ''B'', party_size = 4, reservation_time = ''19:05''\<rparr>,
              \<lparr>client_name = ''C'', party_size = 6, reservation_time = ''19:10''\<rparr>,
              \<lparr>client_name = ''D'', party_size = 4, reservation_time = ''19:15''\<rparr>,
              \<lparr>client_name = ''E'', party_size = 4, reservation_time = ''19:20''\<rparr>],
      tables = [(2, 0), (4, 3), (6, 2)], wait_time_per_table = 30\<rparr>
   \<and> estimate_wait_time
     \<lparr>head = [\<lparr>client_name = ''A'', party_size = 2, reservation_time = ''19:00''\<rparr>,
              \<lparr>client_name = ''B'', party_size = 4, reservation_time = ''19:05''\<rparr>,
              \<lparr>client_name = ''C'', party_size = 6, reservation_time = ''19:10''\<rparr>,
              \<lparr>client_name = ''D'', party_size = 4, reservation_time = ''19:15''\<rparr>,
              \<lparr>client_name = ''E'', party_size = 4, reservation_time = ''19:20''\<rparr>],
      tables = [(2, 0), (4, 3), (6, 2)], wait_time_per_table = 30\<rparr> 4 = Inr 30
   \<and> estimate_wait_time
     \<lparr>head = [\<lparr>client_name = ''A'', party_size = 2, reservation_time = ''19:00''\<rparr>,
              \<lparr>client_name = ''B'', party_size = 4, reservation_time = ''19:05''\<rparr>,
              \<lparr>client_name = ''C'', party_size = 6, reservation_time = ''19:10''\<rparr>,
              \<lparr>client_name = ''D'', party_size = 4, reservation_time = ''19:15''\<rparr>,
              \<lparr>client_name = ''E'', party_size = 4, reservation_time = ''19:20''\<rparr>],
      tables = [(2, 0), (4, 3), (6, 2)], wait_time_per_table = 30\<rparr> 2 = Inr 30"
proof -
  let ?s = "\<lparr>head = [\<lparr>client_name = ''A'', party_size = 2, reservation_time = ''19:00''\<rparr>,
              \<lparr>client_name = ''B'', party_size = 4, reservation_time = ''19:05''\<rparr>,
              \<lparr>client_name = ''C'', party_size = 6, reservation_time = ''19:10''\<rparr>,
              \<lparr>client_name = ''D'', party_size = 4, reservation_time = ''19:15''\<rparr>,
              \<lparr>client_name = ''E'', party_size = 4, reservation_time = ''19:20''\<rparr>],
      tables = [(2, 0), (4, 3), (6, 2)], wait_time_per_table = 30\<rparr>"
  have pos: "capacities_positive ?s" by (simp add: capacities_positive_def)
  have w: "0 \<le> wait_time_per_table ?s" by simp
  have c4: "4 = int (length (filter (\<lambda>n. party_size n \<le> 4) (head ?s)))" by simp
  have c2: "1 = int (length (filter (\<lambda>n. party_size n \<le> 2) (head ?s)))" by simp
  have f4: "smallest_fit ?s 4 4 \<and> map_of (tables ?s) 4 = Some 3 \<and> (3::int) \<noteq> 0"
    by (simp add: smallest_fit_def)
  have f2: "smallest_fit ?s 2 2 \<and> map_of (tables ?s) 2 = Some 0"
    by (simp add: smallest_fit_def)
  from estimate_wait_time_value [OF pos w c4, where c = 4 and free = 3] f4
  have "estimate_wait_time ?s 4 = Inr (max 0 ((4 - 3) * wait_time_per_table ?s))"
    by blast
  moreover from estimate_wait_time_value [OF pos w c2, where c = 2 and free = 0] f2
  have "estimate_wait_time ?s 2 = Inr (1 * wait_time_per_table ?s)"
    by blast
  ultimately show ?thesis using pos by simp
qed

lemma free_tables_count:
  "map_of (tables s) c = Some free \<Longrightarrow>
     map_of (tables (free_tables k s c)) = (map_of (tables s))(c \<mapsto> free + int k)"
proof (induction k arbitrary: s free)
  case 0
  then show ?case by (simp add: map_upd_triv)
next
  case (Suc k)
  let ?s1 = "snd (free_table s c)"
  from Suc.prems have 1: "map_of (tables ?s1) = (map_of (tables s))(c \<mapsto> free + 1)"
    by (simp add: free_table_def update_conv')
  then have "map_of (tables ?s1) c = Some (free + 1)" by simp
  from Suc.IH [OF this] show ?case unfolding 1 by (simp add: add.assoc fun_eq_iff)
qed

text \<open>
  C7. \<^verbatim>\<open>free_table\<close> with a key of the dictionary returns \<^verbatim>\<open>True\<close>, raises the count
  of that key by exactly 1 and changes nothing else; with any other argument it returns
  \<^verbatim>\<open>False\<close> and the state it was given. There is no upper limit: \<open>k\<close> calls in a row
  raise the count by \<open>k\<close>, above any number provisioned at the start.
\<close>

theorem free_table_increments:
  "(map_of (tables s) c = Some free
      \<longrightarrow> (\<exists>s'. free_table s c = (True, s')
             \<and> map_of (tables s') = (map_of (tables s))(c \<mapsto> free + 1)
             \<and> map fst (tables s') = map fst (tables s)
             \<and> head s' = head s \<and> wait_time_per_table s' = wait_time_per_table s)
        \<and> map_of (tables (free_tables k s c)) c = Some (free + int k))
   \<and> (c \<notin> set (map fst (tables s)) \<longrightarrow> free_table s c = (False, s))"
proof (intro conjI impI)
  assume a: "map_of (tables s) c = Some free"
  then show "\<exists>s'. free_table s c = (True, s')
             \<and> map_of (tables s') = (map_of (tables s))(c \<mapsto> free + 1)
             \<and> map fst (tables s') = map fst (tables s)
             \<and> head s' = head s \<and> wait_time_per_table s' = wait_time_per_table s"
    by (simp add: free_table_def update_conv' map_fst_update_present)
  from free_tables_count [OF a] show "map_of (tables (free_tables k s c)) c = Some (free + int k)"
    by simp
next
  assume "c \<notin> set (map fst (tables s))"
  then have "map_of (tables s) c = None" by (simp add: map_of_eq_None_iff)
  then show "free_table s c = (False, s)" by (simp add: free_table_def)
qed

theorem free_table_increments_witness:
  "free_table init 2 = (True, init\<lparr>tables := [(2, 6), (4, 3), (6, 2)]\<rparr>)
   \<and> map_of (tables (free_tables 10 init 2)) 2 = Some 15
   \<and> free_table init 3 = (False, init)"
proof -
  have a: "map_of (tables init) 2 = Some 5" by (simp add: init_def)
  have b: "3 \<notin> set (map fst (tables init))" by (simp add: init_def)
  from free_table_increments [of init 2 5 10] a
  have "map_of (tables (free_tables 10 init 2)) 2 = Some (5 + int 10)" by blast
  moreover from free_table_increments [of init 3] b
  have "free_table init 3 = (False, init)" by blast
  moreover have "free_table init 2 = (True, init\<lparr>tables := [(2, 6), (4, 3), (6, 2)]\<rparr>)"
    by (simp add: free_table_def init_def)
  ultimately show ?thesis by simp
qed

text \<open>
  C8 (amended). \<^verbatim>\<open>__init__\<close> takes no argument: every engine starts with an empty
  chain, the table sizes 2, 4 and 6 with 5, 3 and 2 free tables, and 30 minutes per
  table, and the key set stays 2, 4, 6 in every reachable state.
\<close>

theorem init_fixed_capacities:
  "head init = [] \<and> tables init = [(2, 5), (4, 3), (6, 2)] \<and> wait_time_per_table init = 30
   \<and> set (map fst (tables init)) = {2, 4, 6}
   \<and> map fst (tables (reachable ops)) = [2, 4, 6]"
  using reachable_invariant [of ops] by (simp add: init_def)

text \<open>
  C8 as stated fails: no engine can be constructed with, say, the single table size 3.
\<close>

theorem init_capacities_counterexample:
  "set (map fst (tables init)) \<noteq> {3}"
  by (simp add: init_def)

lemma collect_append: "collect ns clients = clients @ map as_dict ns"
  by (induction ns arbitrary: clients) simp_all

lemma chain_bound: "chain h p as \<Longrightarrow> a \<in> set as \<Longrightarrow> a < length h"
  by (induction as arbitrary: p) (auto simp: lookup_def split: if_splits pyobj.splits)

lemma chain_same_cells:
  "chain h p as \<Longrightarrow> length h \<le> length h' \<Longrightarrow> (\<forall>a\<in>set as. h' ! a = h ! a) \<Longrightarrow> chain h' p as"
proof (induction as arbitrary: p)
  case Nil
  then show ?case by simp
next
  case (Cons a as)
  from Cons.prems(1) have "a < length h" by (auto simp: lookup_def split: if_splits)
  with Cons.prems(2,3) have "lookup h' a = lookup h a" by (simp add: lookup_def)
  with Cons show ?case by (auto split: option.splits pyobj.splits)
qed

lemma collect_store_chain:
  assumes "chain h cur as" and "clients < length h" and "h ! clients = ListObj ds"
    and "\<forall>a\<in>set as. a < clients"
  shows "collect_store h clients cur =
           Some (Inr (h[clients := ListObj (ds @ [length h ..< length h + length as])]
                      @ map (\<lambda>a. dict_obj (as_dict (node_at h a))) as))"
  using assms
proof (induction as arbitrary: h cur ds)
  case Nil
  then have "h[clients := ListObj ds] = h" by (metis list_update_id)
  with Nil show ?case by (simp add: collect_store.simps)
next
  case (Cons a as)
  from Cons.prems(1) obtain cname psize rtime nxt where cur: "cur = Some a"
    and a: "a < length h" "h ! a = NodeObj cname psize rtime nxt" and nx: "chain h nxt as"
    by (auto simp: lookup_def split: if_splits pyobj.splits)
  let ?d = "DictObj [(PyStr ''name'', PyStr cname), (PyStr ''party_size'', PyInt psize),
                     (PyStr ''time'', PyStr rtime)]"
  let ?h2 = "(h @ [?d])[clients := ListObj (ds @ [length h])]"
  have same: "?h2 ! b = h ! b" if "b \<in> set as \<or> b = a" for b
  proof -
    from that Cons.prems(4) have "b < clients" by auto
    with Cons.prems(2) show ?thesis by (simp add: nth_append)
  qed
  then have 1: "chain ?h2 nxt as"
    using chain_same_cells [OF nx, of ?h2] by simp
  have 2: "clients < length ?h2" using Cons.prems(2) by simp
  have 3: "?h2 ! clients = ListObj (ds @ [length h])" using Cons.prems(2) by simp
  have 4: "\<forall>a\<in>set as. a < clients" using Cons.prems(4) by simp
  have nodes: "map (\<lambda>b. dict_obj (as_dict (node_at ?h2 b))) as
             = map (\<lambda>b. dict_obj (as_dict (node_at h b))) as"
    using same by (simp add: node_at_def)
  have dict: "dict_obj (as_dict (node_at h a)) = ?d"
    using a by (simp add: dict_obj_def as_dict_def node_at_def)
  have e: "length h + length (a # as) = Suc (length h) + length as" by simp
  have upt: "[length h ..< length h + length (a # as)]
           = length h # [Suc (length h) ..< Suc (length h) + length as]"
    unfolding e by (rule upt_conv_Cons) simp
  have step: "collect_store h clients cur = collect_store ?h2 clients nxt"
    using cur a Cons.prems(2,3)
    by (subst collect_store.simps) (simp add: lookup_def alloc_def nth_append)
  have "?h2[clients := ListObj ((ds @ [length h]) @ [length ?h2 ..< length ?h2 + length as])]
        = (h @ [?d])[clients := ListObj (ds @ length h # [Suc (length h) ..< Suc (length h) + length as])]"
    by simp
  also have "\<dots> = h[clients := ListObj (ds @ length h # [Suc (length h) ..< Suc (length h) + length as])] @ [?d]"
    using Cons.prems(2) by (simp add: list_update_append1)
  also have "\<dots> = h[clients := ListObj (ds @ [length h ..< length h + length (a # as)])] @ [?d]"
    by (simp only: upt)
  finally have "?h2[clients := ListObj ((ds @ [length h]) @ [length ?h2 ..< length ?h2 + length as])]
        = h[clients := ListObj (ds @ [length h ..< length h + length (a # as)])] @ [?d]" .
  with Cons.IH [OF 1 2 3 4] step nodes dict show ?case by simp
qed

lemma get_waitlist_store_result:
  assumes "lookup h self = Some (WaitlistObj head_ref tables_ref wait)"
    and "chain h head_ref as"
  shows "get_waitlist_store h self =
           Some (Inr (h @ ListObj [Suc (length h) ..< Suc (length h) + length as]
                        # map (\<lambda>a. dict_obj (as_dict (node_at h a))) as,
                      length h))"
proof -
  let ?h1 = "h @ [ListObj []]"
  have b: "\<forall>a\<in>set as. a < length h" using chain_bound [OF assms(2)] by blast
  then have same: "\<forall>a\<in>set as. ?h1 ! a = h ! a" by (simp add: nth_append)
  then have 1: "chain ?h1 head_ref as" using chain_same_cells [OF assms(2), of ?h1] by simp
  have 2: "length h < length ?h1" by simp
  have 3: "?h1 ! length h = ListObj []" by simp
  from same have 4: "map (\<lambda>a. dict_obj (as_dict (node_at ?h1 a))) as
                   = map (\<lambda>a. dict_obj (as_dict (node_at h a))) as"
    by (simp add: node_at_def)
  from collect_store_chain [OF 1 2 3 b] 4 assms(1) show ?thesis
    by (simp add: get_waitlist_store_def alloc_def)
qed

lemma mutate_take:
  "list_all (\<lambda>(x, ob). n \<le> x) writes \<Longrightarrow> take n (mutate h writes) = take n h"
  by (induction h writes rule: mutate.induct) simp_all

lemma take_same_cell:
  assumes "take (length h) h' = h" and "a < length h"
  shows "h' ! a = h ! a \<and> lookup h' a = lookup h a"
proof -
  have len: "length h \<le> length h'"
    using arg_cong [OF assms(1), of length] by simp
  from assms(2) have "take (length h) h' ! a = h' ! a" by simp
  with assms len show ?thesis by (simp add: lookup_def)
qed

lemma engine_at_same_cells:
  assumes "engine_at h self as s" and "take (length h) h' = h"
  shows "engine_at h' self as s"
proof -
  from assms(1) obtain head_ref tables_ref where
    self: "lookup h self = Some (WaitlistObj head_ref tables_ref (wait_time_per_table s))"
    and c: "chain h head_ref as" and n: "head s = map (node_at h) as"
    and t: "lookup h tables_ref = Some (tables_obj (tables s))"
    by (auto simp: engine_at_def split: option.splits pyobj.splits)
  have len: "length h \<le> length h'"
    using arg_cong [OF assms(2), of length] by simp
  from self have "self < length h" by (simp add: lookup_def split: if_splits)
  from take_same_cell [OF assms(2) this] self
  have self': "lookup h' self = Some (WaitlistObj head_ref tables_ref (wait_time_per_table s))"
    by simp
  from t have "tables_ref < length h" by (simp add: lookup_def split: if_splits)
  from take_same_cell [OF assms(2) this] t
  have t': "lookup h' tables_ref = Some (tables_obj (tables s))" by simp
  have same: "\<forall>a\<in>set as. h' ! a = h ! a"
    using take_same_cell [OF assms(2) chain_bound [OF c]] by blast
  with chain_same_cells [OF c len] have c': "chain h' head_ref as" by simp
  from same n have n': "head s = map (node_at h') as" by (simp add: node_at_def)
  from self' c' n' t' show ?thesis by (simp add: engine_at_def)
qed

text \<open>
  C9. When the store \<open>h\<close> holds the engine state \<open>s\<close> at \<open>self\<close>, \<^verbatim>\<open>get_waitlist\<close>
  returns (it neither loops nor raises) the address of a list object that did not exist
  before. The list holds, in chain order, head first, the addresses of dictionaries that
  did not exist before either: the i-th dictionary has exactly the items \<^verbatim>\<open>name\<close>,
  \<^verbatim>\<open>party_size\<close> and \<^verbatim>\<open>time\<close> with the client name, party size and reservation
  time of the i-th node of \<open>head s\<close>. These are also the entries of the list
  \<open>get_waitlist s\<close>, which is \<open>map as_dict (head s)\<close>. Every object that existed before the
  call is unchanged, so the store still holds the same engine state: the chain, the
  table dictionary and the time per table. Whatever the caller then writes to the
  returned list or to its dictionaries, the store keeps holding that engine state.
\<close>

theorem get_waitlist_fresh_copy:
  assumes "engine_at h self as s"
  shows "\<exists>h' ds. get_waitlist_store h self = Some (Inr (h', length h))
           \<and> take (length h) h' = h
           \<and> engine_at h' self as s
           \<and> lookup h' (length h) = Some (ListObj ds)
           \<and> map (lookup h') ds =
               map (\<lambda>n. Some (DictObj [(PyStr ''name'', PyStr (client_name n)),
                                        (PyStr ''party_size'', PyInt (party_size n)),
                                        (PyStr ''time'', PyStr (reservation_time n))]))
                   (head s)
           \<and> map (lookup h') ds = map (\<lambda>d. Some (dict_obj d)) (get_waitlist s)
           \<and> get_waitlist s = map as_dict (head s)
           \<and> distinct ds \<and> list_all (\<lambda>d. length h < d) ds
           \<and> (\<forall>writes. list_all (\<lambda>(x, ob). x \<in> set (length h # ds)) writes
                 \<longrightarrow> engine_at (mutate h' writes) self as s
                   \<and> take (length h) (mutate h' writes) = h)"
proof -
  from assms obtain head_ref tables_ref where
    self: "lookup h self = Some (WaitlistObj head_ref tables_ref (wait_time_per_table s))"
    and c: "chain h head_ref as" and n: "head s = map (node_at h) as"
    by (auto simp: engine_at_def split: option.splits pyobj.splits)
  let ?ds = "[Suc (length h) ..< Suc (length h) + length as]"
  let ?dicts = "map (\<lambda>a. dict_obj (as_dict (node_at h a))) as"
  let ?h' = "h @ ListObj ?ds # ?dicts"
  have 1: "get_waitlist_store h self = Some (Inr (?h', length h))"
    by (rule get_waitlist_store_result [OF self c])
  have 2: "take (length h) ?h' = h" by simp
  have 3: "lookup ?h' (length h) = Some (ListObj ?ds)" by (simp add: lookup_def)
  have "map (lookup ?h') ?ds = map Some ?dicts"
  proof (rule nth_equalityI)
    show "length (map (lookup ?h') ?ds) = length (map Some ?dicts)"
      by (simp del: upt_Suc)
  next
    fix i
    assume "i < length (map (lookup ?h') ?ds)"
    then have i: "i < length as" by (simp del: upt_Suc)
    then have d: "?ds ! i = length h + Suc i" by (simp del: upt_Suc)
    have "?h' ! (length h + Suc i) = ?dicts ! i"
      by (simp only: nth_append_length_plus nth_Cons_Suc)
    with i d show "map (lookup ?h') ?ds ! i = map Some ?dicts ! i"
      by (simp add: lookup_def del: upt_Suc)
  qed
  then have 4: "map (lookup ?h') ?ds = map (\<lambda>d. Some (dict_obj d)) (get_waitlist s)"
    by (simp add: get_waitlist_def collect_append n comp_def)
  have 8: "get_waitlist s = map as_dict (head s)"
    by (simp add: get_waitlist_def collect_append)
  have "map (\<lambda>d. Some (dict_obj d)) (map as_dict (head s)) =
        map (\<lambda>n. Some (DictObj [(PyStr ''name'', PyStr (client_name n)),
                                 (PyStr ''party_size'', PyInt (party_size n)),
                                 (PyStr ''time'', PyStr (reservation_time n))]))
            (head s)"
    by (simp add: dict_obj_def as_dict_def)
  with 4 8 have 9: "map (lookup ?h') ?ds =
        map (\<lambda>n. Some (DictObj [(PyStr ''name'', PyStr (client_name n)),
                                 (PyStr ''party_size'', PyInt (party_size n)),
                                 (PyStr ''time'', PyStr (reservation_time n))]))
            (head s)"
    by simp
  have 5: "distinct ?ds \<and> list_all (\<lambda>d. length h < d) ?ds"
    by (simp add: list_all_iff del: upt_Suc)
  have 6: "engine_at (mutate ?h' writes) self as s \<and> take (length h) (mutate ?h' writes) = h"
    if w: "list_all (\<lambda>(x, ob). x \<in> set (length h # ?ds)) writes" for writes
  proof -
    from w have "list_all (\<lambda>(x, ob). length h \<le> x) writes"
      by (auto simp: list_all_iff)
    from mutate_take [OF this, of ?h'] have t: "take (length h) (mutate ?h' writes) = h" by simp
    from engine_at_same_cells [OF assms t] t show ?thesis by simp
  qed
  have 7: "engine_at ?h' self as s" by (rule engine_at_same_cells [OF assms 2])
  from 1 2 3 4 5 6 7 8 9 show ?thesis by blast
qed

theorem get_waitlist_fresh_copy_witness:
  "engine_at
     [DictObj [(PyInt 2, PyInt 5), (PyInt 4, PyInt 3), (PyInt 6, PyInt 2)],
      NodeObj ''Bob'' 4 ''19:05'' None, NodeObj ''Ana'' 2 ''19:00'' (Some 1),
      WaitlistObj (Some 2) 0 30]
     3 [2, 1]
     \<lparr>head = [\<lparr>client_name = ''Ana'', party_size = 2, reservation_time = ''19:00''\<rparr>,
              \<lparr>client_name = ''Bob'', party_size = 4, reservation_time = ''19:05''\<rparr>],
      tables = [(2, 5), (4, 3), (6, 2)], wait_time_per_table = 30\<rparr>
   \<and> get_waitlist_store
     [DictObj [(PyInt 2, PyInt 5), (PyInt 4, PyInt 3), (PyInt 6, PyInt 2)],
      NodeObj ''Bob'' 4 ''19:05'' None, NodeObj ''Ana'' 2 ''19:00'' (Some 1),
      WaitlistObj (Some 2) 0 30] 3
     = Some (Inr ([DictObj [(PyInt 2, PyInt 5), (PyInt 4, PyInt 3), (PyInt 6, PyInt 2)],
                   NodeObj ''Bob'' 4 ''19:05'' None, NodeObj ''Ana'' 2 ''19:00'' (Some 1),
                   WaitlistObj (Some 2) 0 30,
                   ListObj [5, 6],
                   DictObj [(PyStr ''name'', PyStr ''Ana''), (PyStr ''party_size'', PyInt 2),
                            (PyStr ''time'', PyStr ''19:00'')],
                   DictObj [(PyStr ''name'', PyStr ''Bob''), (PyStr ''party_size'', PyInt 4),
                            (PyStr ''time'', PyStr ''19:05'')]],
                  4))
   \<and> (\<exists>h' ds. get_waitlist_store
                  [DictObj [(PyInt 2, PyInt 5), (PyInt 4, PyInt 3), (PyInt 6, PyInt 2)],
                   NodeObj ''Bob'' 4 ''19:05'' None, NodeObj ''Ana'' 2 ''19:00'' (Some 1),
                   WaitlistObj (Some 2) 0 30] 3
                 = Some (Inr (h', 4))
         \<and> lookup h' 4 = Some (ListObj ds)
         \<and> engine_at (mutate h' [(4, ListObj [])]) 3 [2, 1]
              \<lparr>head = [\<lparr>client_name = ''Ana'', party_size = 2, reservation_time = ''19:00''\<rparr>,
                       \<lparr>client_name = ''Bob'', party_size = 4, reservation_time = ''19:05''\<rparr>],
               tables = [(2, 5), (4, 3), (6, 2)], wait_time_per_table = 30\<rparr>)"
proof -
  let ?h = "[DictObj [(PyInt 2, PyInt 5), (PyInt 4, PyInt 3), (PyInt 6, PyInt 2)],
      NodeObj ''Bob'' 4 ''19:05'' None, NodeObj ''Ana'' 2 ''19:00'' (Some 1),
      WaitlistObj (Some 2) 0 30]"
  let ?s = "\<lparr>head = [\<lparr>client_name = ''Ana'', party_size = 2, reservation_time = ''19:00''\<rparr>,
              \<lparr>client_name = ''Bob'', party_size = 4, reservation_time = ''19:05''\<rparr>],
      tables = [(2, 5), (4, 3), (6, 2)], wait_time_per_table = 30\<rparr>"
  have e: "engine_at ?h 3 [2, 1] ?s"
    by (simp add: engine_at_def lookup_def node_at_def tables_obj_def)
  have run: "get_waitlist_store ?h 3
     = Some (Inr (?h @ [ListObj [5, 6],
                   DictObj [(PyStr ''name'', PyStr ''Ana''), (PyStr ''party_size'', PyInt 2),
                            (PyStr ''time'', PyStr ''19:00'')],
                   DictObj [(PyStr ''name'', PyStr ''Bob''), (PyStr ''party_size'', PyInt 4),
                            (PyStr ''time'', PyStr ''19:05'')]],
                  4))"
    by (simp add: get_waitlist_store_def collect_store.simps alloc_def lookup_def)
  from get_waitlist_fresh_copy [OF e] obtain h' ds where
    1: "get_waitlist_store ?h 3 = Some (Inr (h', length ?h))"
    and 2: "lookup h' (length ?h) = Some (ListObj ds)"
    and 3: "\<forall>writes. list_all (\<lambda>(x, ob). x \<in> set (length ?h # ds)) writes
                 \<longrightarrow> engine_at (mutate h' writes) 3 [2, 1] ?s
                   \<and> take (length ?h) (mutate h' writes) = ?h"
    by blast
  have "list_all (\<lambda>(x, ob). x \<in> set (length ?h # ds)) [(4, ListObj [])]" by simp
  with 3 have "engine_at (mutate h' [(4, ListObj [])]) 3 [2, 1] ?s" by blast
  moreover have "length ?h = 4" by simp
  ultimately have "\<exists>h' ds. get_waitlist_store ?h 3 = Some (Inr (h', 4))
         \<and> lookup h' 4 = Some (ListObj ds)
         \<and> engine_at (mutate h' [(4, ListObj [])]) 3 [2, 1] ?s"
    using 1 2 by metis
  with e run show ?thesis by simp
qed

text \<open>
  C10. \<^verbatim>\<open>add_client\<close> validates nothing: for every name (the empty one too), every
  integer party size (zero and negative too) and every time string it appends exactly
  one node with these fields at the tail, the chain grows by one, and the table counts
  and the turnover time stay as they were.
\<close>

theorem add_client_appends:
  "head (add_client s n p t) =
     head s @ [\<lparr>client_name = n, party_size = p, reservation_time = t\<rparr>]
   \<and> length (head (add_client s n p t)) = length (head s) + 1
   \<and> tables (add_client s n p t) = tables s
   \<and> wait_time_per_table (add_client s n p t) = wait_time_per_table s"
  by (simp add: add_client_def link_last_append)

end
